theory Spec2Isabelle
  imports
    Complex_Main
    "HOL-Library.Multiset"
    "HOL-Library.Sublist"
    "HOL-Library.Char_ord"
    "HOL-Library.List_Lexorder"
    "HOL-Library.Product_Lexorder"
begin

section \<open>Link validation for a documentation tree\<close>

text \<open>
  A shallow embedding of \<^verbatim>\<open>link_validation_script.py\<close> (class \<^verbatim>\<open>LinkValidator\<close>).

  Python strings are modelled as \<^typ>\<open>string\<close>, each \<^typ>\<open>char\<close> read as one code point
  in the range U+0000 to U+00FF. Python's \<^verbatim>\<open>set\<close> of indexed paths is modelled by the list
  of its elements in the order the set's iterator yields them; that order is fixed for one
  run and is otherwise arbitrary (string hashing is randomised per process), so it is an
  explicit input of the model. The directory tree is the list of its entries in the order
  \<^verbatim>\<open>Path.glob\<close> walks them.
\<close>

subsection \<open>Python string primitives\<close>

definition startswith :: "string \<Rightarrow> string \<Rightarrow> bool" where
  "startswith s p = (take (length p) s = p)"

definition endswith :: "string \<Rightarrow> string \<Rightarrow> bool" where
  "endswith s p = (length p \<le> length s \<and> drop (length s - length p) s = p)"

text \<open>\<^verbatim>\<open>s.startswith((p1, ..., pn))\<close> and \<^verbatim>\<open>s.endswith((p1, ..., pn))\<close> with a tuple.\<close>

definition startswith_any :: "string \<Rightarrow> string list \<Rightarrow> bool" where
  "startswith_any s ps = list_ex (startswith s) ps"

definition endswith_any :: "string \<Rightarrow> string list \<Rightarrow> bool" where
  "endswith_any s ps = list_ex (endswith s) ps"

text \<open>\<^verbatim>\<open>s.split(sep)\<close> for a one-character separator: never the empty list.\<close>

fun py_split :: "char \<Rightarrow> string \<Rightarrow> string list" where
  "py_split sep [] = [[]]"
| "py_split sep (c # cs) =
     (if c = sep then [] # py_split sep cs
      else (case py_split sep cs of
              [] \<Rightarrow> [[c]]
            | p # ps \<Rightarrow> (c # p) # ps))"

text \<open>\<^verbatim>\<open>s.lstrip('/')\<close>.\<close>

definition lstrip_slash :: "string \<Rightarrow> string" where
  "lstrip_slash s = dropWhile (\<lambda>c. c = CHR ''/'') s"

text \<open>
  \<^verbatim>\<open>str.lower()\<close> on code points below U+0100: the ASCII capitals and the Latin-1
  capitals U+00C0 to U+00DE, the multiplication sign U+00D7 apart, move up by 32.
\<close>

definition char_lower :: "char \<Rightarrow> char" where
  "char_lower c =
     (let n = (of_char c :: nat)
      in if (65 \<le> n \<and> n \<le> 90) \<or> (192 \<le> n \<and> n \<le> 222 \<and> n \<noteq> 215)
         then char_of (n + 32) else c)"

definition lower :: "string \<Rightarrow> string" where
  "lower s = map char_lower s"

subsection \<open>Classification and normalisation\<close>

definition is_internal_link :: "string \<Rightarrow> bool" where
  "is_internal_link url =
     (if startswith_any url [''http://'', ''https://''] then False
      else if startswith_any url [''mailto:'', ''tel:'', ''ftp:''] then False
      else True)"

definition known_extensions :: "string list" where
  "known_extensions = [''.mdx'', ''.md'', ''.json'', ''.png'', ''.jpg'', ''.gif'', ''.svg'']"

definition normalize_internal_path :: "string \<Rightarrow> string" where
  "normalize_internal_path url0 =
     (let url = hd (py_split CHR ''?'' (hd (py_split CHR ''#'' url0)))
      in if startswith url ''./''
         then (let url = drop 2 url
               in if \<not> endswith_any url known_extensions then url @ ''.mdx'' else url)
         else if startswith url ''../'' then url
         else if \<not> endswith_any url known_extensions then url @ ''.mdx'' else url)"

subsection \<open>The directory tree and the file index\<close>

text \<open>
  One entry per path below the documentation tree: its path relative to the tree, whether
  it is a regular file, and its text (\<open>None\<close> when \<^verbatim>\<open>read_text\<close> raises).
\<close>

record entry =
  rel_path :: string
  is_file :: bool
  content :: "string option"

type_synonym docs_tree = "entry list"

text \<open>\<^verbatim>\<open>PurePath.name\<close>: the final component of a path.\<close>

definition path_name :: "string \<Rightarrow> string" where
  "path_name p = rev (takeWhile (\<lambda>c. c \<noteq> CHR ''/'') (rev p))"

text \<open>\<^verbatim>\<open>name.rfind('.')\<close>, with \<open>None\<close> for \<^verbatim>\<open>-1\<close>.\<close>

definition rfind_dot :: "string \<Rightarrow> nat option" where
  "rfind_dot name =
     (if CHR ''.'' \<in> set name
      then Some (length name - 1 - length (takeWhile (\<lambda>c. c \<noteq> CHR ''.'') (rev name)))
      else None)"

text \<open>
  \<^verbatim>\<open>path.with_suffix('')\<close>: the suffix of the final component starts at its last dot,
  unless that dot is the first or the last character of the component. The
  \<^verbatim>\<open>ValueError\<close> for an empty name cannot arise for a path that \<^verbatim>\<open>glob\<close> yields.
\<close>

definition with_suffix_empty :: "string \<Rightarrow> string" where
  "with_suffix_empty p =
     (let name = path_name p
      in case rfind_dot name of
           None \<Rightarrow> p
         | Some i \<Rightarrow>
             if 0 < i \<and> i < length name - 1
             then take (length p - (length name - i)) p
             else p)"

text \<open>
  \<^verbatim>\<open>docs_root.glob('**/*' + ext)\<close>: the entries whose final component ends in \<open>ext\<close>,
  in walk order.
\<close>

definition glob :: "string \<Rightarrow> docs_tree \<Rightarrow> entry list" where
  "glob ext tree = filter (\<lambda>e. endswith (path_name (rel_path e)) ext) tree"

text \<open>The four strings \<^verbatim>\<open>_build_file_index\<close> adds for one file.\<close>

definition file_variants :: "string \<Rightarrow> string list" where
  "file_variants relative_path =
     [relative_path,
      with_suffix_empty relative_path,
      ''/'' @ relative_path,
      ''/'' @ with_suffix_empty relative_path]"

definition indexed_files :: "docs_tree \<Rightarrow> entry list" where
  "indexed_files tree = filter is_file (glob ''.mdx'' tree) @ filter is_file (glob ''.md'' tree)"

definition build_file_index :: "docs_tree \<Rightarrow> string set" where
  "build_file_index tree =
     set (concat (map (\<lambda>e. file_variants (rel_path e)) (indexed_files tree)))"

text \<open>A list is an iteration order of a Python set when it lists its elements once each.\<close>

definition set_iteration :: "string list \<Rightarrow> string set \<Rightarrow> bool" where
  "set_iteration order S = (distinct order \<and> set order = S)"

subsection \<open>Links and their extraction\<close>

datatype link_type = markdown | href | src

record link =
  file_l :: string
  line :: nat
  type_l :: link_type
  text_l :: string
  url :: string
  raw_match :: string

definition is_quote :: "char \<Rightarrow> bool" where
  "is_quote c = (c = CHR 0x22 \<or> c = CHR 0x27)"

text \<open>
  The pattern \<^verbatim>\<open>\[([^\]]*)\]\(([^)]+)\)\<close> tried at the start of \<open>s\<close>: the display text,
  the URL and what follows the match. Both groups are greedy runs of a negated character
  class followed by the one character the class excludes, so the longest run is the only
  candidate and no backtracking arises.
\<close>

definition match_markdown :: "string \<Rightarrow> (string \<times> string \<times> string) option" where
  "match_markdown s =
     (case s of
        [] \<Rightarrow> None
      | c # r \<Rightarrow>
          if c \<noteq> CHR ''['' then None
          else (case dropWhile (\<lambda>x. x \<noteq> CHR '']'') r of
                  _ # p # r2 \<Rightarrow>
                    if p \<noteq> CHR ''('' then None
                    else (let u = takeWhile (\<lambda>x. x \<noteq> CHR '')'') r2
                          in case dropWhile (\<lambda>x. x \<noteq> CHR '')'') r2 of
                               [] \<Rightarrow> None
                             | _ # rest \<Rightarrow>
                                 if u = [] then None
                                 else Some (takeWhile (\<lambda>x. x \<noteq> CHR '']'') r, u, rest))
                | _ \<Rightarrow> None))"

text \<open>
  The patterns \<^verbatim>\<open>href=["\']([^"\']+)["\']\<close> and \<^verbatim>\<open>src=["\']([^"\']+)["\']\<close> under
  \<^verbatim>\<open>re.IGNORECASE\<close>, tried at the start of \<open>s\<close>; \<open>attr\<close> is \<open>''href=''\<close> or \<open>''src=''\<close>.
\<close>

definition match_attribute :: "string \<Rightarrow> string \<Rightarrow> (string \<times> string \<times> string) option" where
  "match_attribute attr s =
     (if lower (take (length attr) s) \<noteq> attr then None
      else (case drop (length attr) s of
              [] \<Rightarrow> None
            | q # r \<Rightarrow>
                if \<not> is_quote q then None
                else (let u = takeWhile (\<lambda>x. \<not> is_quote x) r
                      in case dropWhile (\<lambda>x. \<not> is_quote x) r of
                           [] \<Rightarrow> None
                         | _ # rest \<Rightarrow> if u = [] then None else Some ([], u, rest))))"

fun match_at :: "link_type \<Rightarrow> string \<Rightarrow> (string \<times> string \<times> string) option" where
  "match_at markdown s = match_markdown s"
| "match_at href s = match_attribute ''href='' s"
| "match_at src s = match_attribute ''src='' s"

lemma match_markdown_shorter:
  "match_markdown s = Some (t, u, rest) \<Longrightarrow> length rest < length s"
proof -
  have d: "length (dropWhile P xs) \<le> length xs" for P and xs :: string
    by (rule length_dropWhile_le)
  assume m: "match_markdown s = Some (t, u, rest)"
  then obtain c r where s: "s = c # r"
    by (cases s) (simp_all add: match_markdown_def)
  from m s obtain a p r2 where r: "dropWhile (\<lambda>x. x \<noteq> CHR '']'') r = a # p # r2"
    by (auto simp: match_markdown_def split: if_splits list.splits)
  from m s r obtain b where r2: "dropWhile (\<lambda>x. x \<noteq> CHR '')'') r2 = b # rest"
    by (auto simp: match_markdown_def Let_def split: if_splits list.splits)
  have "length rest < length r2"
    using d [of "\<lambda>x. x \<noteq> CHR '')''" r2] r2 by simp
  moreover have "length r2 < length r"
    using d [of "\<lambda>x. x \<noteq> CHR '']''" r] r by simp
  ultimately show ?thesis using s by simp
qed

lemma match_attribute_shorter:
  "match_attribute attr s = Some (t, u, rest) \<Longrightarrow> length rest < length s"
proof -
  assume m: "match_attribute attr s = Some (t, u, rest)"
  then obtain q r where r: "drop (length attr) s = q # r"
    by (auto simp: match_attribute_def split: if_splits list.splits)
  from m r obtain b where r2: "dropWhile (\<lambda>x. \<not> is_quote x) r = b # rest"
    by (auto simp: match_attribute_def Let_def split: if_splits list.splits)
  have "length rest < length r"
    using length_dropWhile_le [of "\<lambda>x. \<not> is_quote x" r] r2 by simp
  moreover have "length r < length s"
    using arg_cong [OF r, of length] by simp
  ultimately show ?thesis by simp
qed

lemma match_at_shorter:
  "match_at ty s = Some (t, u, rest) \<Longrightarrow> length rest < length s"
  by (cases ty) (auto dest: match_markdown_shorter match_attribute_shorter)

text \<open>
  \<^verbatim>\<open>re.finditer\<close> over the text that remains, \<open>n\<close> being the number of newline characters
  before it: a match is tried at each position from the left, and the scan resumes behind
  a match. Each result is the 1-based line of the match start, the two groups and the
  matched text.
\<close>

function finditer :: "link_type \<Rightarrow> nat \<Rightarrow> string \<Rightarrow> (nat \<times> string \<times> string \<times> string) list" where
  "finditer ty n [] = []"
| "finditer ty n (c # cs) =
     (case match_at ty (c # cs) of
        None \<Rightarrow> finditer ty (if c = CHR 0x0A then n + 1 else n) cs
      | Some (t, u, rest) \<Rightarrow>
          (let raw = take (length (c # cs) - length rest) (c # cs)
           in (n + 1, t, u, raw) # finditer ty (n + count_list raw (CHR 0x0A)) rest))"
  by pat_completeness auto
termination
  by (relation "measure (\<lambda>(ty, n, s). length s)") (auto dest: match_at_shorter)

text \<open>
  \<^verbatim>\<open>extract_links_from_file\<close>: a file whose text cannot be read contributes no link;
  otherwise the matches of the three patterns, pattern by pattern.
\<close>

definition links_of_pattern :: "string \<Rightarrow> string \<Rightarrow> link_type \<Rightarrow> link list" where
  "links_of_pattern rel txt ty =
     map (\<lambda>(ln, t, u, raw).
            \<lparr>file_l = rel, line = ln, type_l = ty, text_l = t, url = u, raw_match = raw\<rparr>)
         (finditer ty 0 txt)"

definition extract_links_from_file :: "entry \<Rightarrow> link list" where
  "extract_links_from_file file_path =
     (case content file_path of
        None \<Rightarrow> []
      | Some txt \<Rightarrow> concat (map (links_of_pattern (rel_path file_path) txt) [markdown, href, src]))"

subsection \<open>Approximate matching: \<^verbatim>\<open>difflib.get_close_matches\<close>\<close>

text \<open>
  The script delegates the suggestion to Python's standard library. The definitions below
  follow \<^verbatim>\<open>difflib.SequenceMatcher\<close> as \<^verbatim>\<open>get_close_matches\<close> uses it: no junk predicate,
  \<^verbatim>\<open>autojunk\<close> on, the first sequence \<open>a\<close> a candidate and the second sequence \<open>b\<close> the word
  looked for. Scores are exact rationals; the floating-point scores of the library compare
  the same way as long as the two strings together have fewer than \<open>2^26\<close> characters.
\<close>

text \<open>
  \<^verbatim>\<open>bpopular\<close>: when \<open>b\<close> has 200 elements or more, an element that makes up more than about
  1 percent of it is left out of the index of positions \<^verbatim>\<open>b2j\<close>.
\<close>

definition bpopular :: "string \<Rightarrow> char \<Rightarrow> bool" where
  "bpopular b elt = (200 \<le> length b \<and> length b div 100 + 1 < count_list b elt)"

text \<open>
  One round of the outer loop of \<^verbatim>\<open>find_longest_match\<close>: \<^verbatim>\<open>newj2len\<close> for the element \<open>x\<close>
  of \<open>a\<close>, as the list of its values at the positions of \<open>b[blo:bhi]\<close> (0 where the
  dictionary has no key).
\<close>

definition next_j2len :: "(char \<Rightarrow> bool) \<Rightarrow> char \<Rightarrow> string \<Rightarrow> nat list \<Rightarrow> nat list" where
  "next_j2len popular x bs j2len =
     map (\<lambda>(y, k). if y = x \<and> \<not> popular y then k + 1 else 0) (zip bs (0 # j2len))"

text \<open>The updates of \<^verbatim>\<open>(besti, bestj, bestsize)\<close> over one row, \<open>j\<close> ascending.\<close>

fun row_best :: "nat \<Rightarrow> nat \<Rightarrow> nat list \<Rightarrow> nat \<times> nat \<times> nat \<Rightarrow> nat \<times> nat \<times> nat" where
  "row_best i j [] best = best"
| "row_best i j (k # ks) best =
     row_best i (Suc j) ks
       (if snd (snd best) < k then (i + 1 - k, j + 1 - k, k) else best)"

fun longest_rows ::
  "(char \<Rightarrow> bool) \<Rightarrow> string \<Rightarrow> nat \<Rightarrow> nat \<Rightarrow> string \<Rightarrow> nat list \<Rightarrow> nat \<times> nat \<times> nat
     \<Rightarrow> nat \<times> nat \<times> nat" where
  "longest_rows popular bs blo i [] j2len best = best"
| "longest_rows popular bs blo i (x # xs) j2len best =
     (let newj2len = next_j2len popular x bs j2len
      in longest_rows popular bs blo (Suc i) xs newj2len (row_best i blo newj2len best))"

text \<open>
  The two loops that extend the best block by equal elements on each side. The set
  \<^verbatim>\<open>bjunk\<close> is empty here, so the two further loops over junk never run.
\<close>

function extend_left ::
  "string \<Rightarrow> string \<Rightarrow> nat \<Rightarrow> nat \<Rightarrow> nat \<times> nat \<times> nat \<Rightarrow> nat \<times> nat \<times> nat" where
  "extend_left a b alo blo (besti, bestj, bestsize) =
     (if alo < besti \<and> blo < bestj \<and> a ! (besti - 1) = b ! (bestj - 1)
      then extend_left a b alo blo (besti - 1, bestj - 1, bestsize + 1)
      else (besti, bestj, bestsize))"
  by pat_completeness auto
termination
  by (relation "measure (\<lambda>(a, b, alo, blo, besti, bestj, bestsize). besti)") auto

function extend_right ::
  "string \<Rightarrow> string \<Rightarrow> nat \<Rightarrow> nat \<Rightarrow> nat \<times> nat \<times> nat \<Rightarrow> nat \<times> nat \<times> nat" where
  "extend_right a b ahi bhi (besti, bestj, bestsize) =
     (if besti + bestsize < ahi \<and> bestj + bestsize < bhi
         \<and> a ! (besti + bestsize) = b ! (bestj + bestsize)
      then extend_right a b ahi bhi (besti, bestj, bestsize + 1)
      else (besti, bestj, bestsize))"
  by pat_completeness auto
termination
  by (relation "measure (\<lambda>(a, b, ahi, bhi, besti, bestj, bestsize). ahi - (besti + bestsize))")
     auto

definition find_longest_match ::
  "(char \<Rightarrow> bool) \<Rightarrow> string \<Rightarrow> string \<Rightarrow> nat \<Rightarrow> nat \<Rightarrow> nat \<Rightarrow> nat \<Rightarrow> nat \<times> nat \<times> nat" where
  "find_longest_match popular a b alo ahi blo bhi =
     extend_right a b ahi bhi
       (extend_left a b alo blo
          (longest_rows popular (take (bhi - blo) (drop blo b)) blo alo
             (take (ahi - alo) (drop alo a)) (replicate (bhi - blo) 0) (alo, blo, 0)))"

text \<open>The block found lies inside \<open>a[alo:ahi]\<close>; the recursion below rests on it.\<close>

lemma row_best_bounds:
  "\<forall>k\<in>set ks. k \<le> i + 1 - alo \<Longrightarrow> alo \<le> i \<Longrightarrow> alo \<le> fst best
     \<Longrightarrow> fst best + snd (snd best) \<le> i + 1
     \<Longrightarrow> alo \<le> fst (row_best i j ks best)
         \<and> fst (row_best i j ks best) + snd (snd (row_best i j ks best)) \<le> i + 1"
proof (induction ks arbitrary: j best)
  case Nil
  then show ?case by simp
next
  case (Cons k ks)
  let ?b = "if snd (snd best) < k then (i + 1 - k, j + 1 - k, k) else best"
  have "k \<le> i + 1 - alo" using Cons.prems(1) by simp
  then have "alo \<le> fst ?b" "fst ?b + snd (snd ?b) \<le> i + 1"
    using Cons.prems(2,3,4) by auto
  moreover have "\<forall>k\<in>set ks. k \<le> i + 1 - alo" using Cons.prems(1) by simp
  ultimately show ?case
    using Cons.IH [of ?b "Suc j"] Cons.prems(2) by simp
qed

lemma next_j2len_bound:
  "\<forall>k\<in>set j2len. k \<le> n \<Longrightarrow> \<forall>k\<in>set (next_j2len popular x bs j2len). k \<le> n + 1"
  by (auto simp: next_j2len_def dest!: set_zip_rightD)

lemma longest_rows_bounds:
  "\<forall>k\<in>set j2len. k \<le> i - alo \<Longrightarrow> alo \<le> i \<Longrightarrow> alo \<le> fst best
     \<Longrightarrow> fst best + snd (snd best) \<le> i
     \<Longrightarrow> alo \<le> fst (longest_rows popular bs blo i xs j2len best)
         \<and> fst (longest_rows popular bs blo i xs j2len best)
             + snd (snd (longest_rows popular bs blo i xs j2len best)) \<le> i + length xs"
proof (induction xs arbitrary: i j2len best)
  case Nil
  then show ?case by simp
next
  case (Cons x xs)
  let ?new = "next_j2len popular x bs j2len"
  let ?b = "row_best i blo ?new best"
  have new: "\<forall>k\<in>set ?new. k \<le> i + 1 - alo"
    using next_j2len_bound [OF Cons.prems(1)] Cons.prems(2) by (simp add: Suc_diff_le)
  have b: "alo \<le> fst ?b \<and> fst ?b + snd (snd ?b) \<le> i + 1"
    using row_best_bounds [OF new Cons.prems(2,3)] Cons.prems(4) by simp
  have "\<forall>k\<in>set ?new. k \<le> Suc i - alo" using new by simp
  from Cons.IH [OF this, of ?b] b Cons.prems(2) show ?case
    by (simp add: Let_def)
qed

lemma extend_left_bounds:
  "alo \<le> fst best
     \<Longrightarrow> alo \<le> fst (extend_left a b alo blo best)
         \<and> fst (extend_left a b alo blo best) + snd (snd (extend_left a b alo blo best))
             = fst best + snd (snd best)"
proof (induction a b alo blo best rule: extend_left.induct)
  case (1 a b alo blo besti bestj bestsize)
  then show ?case by (auto simp del: extend_left.simps simp: extend_left.simps [of a b alo blo besti])
qed

lemma extend_right_bounds:
  "fst best + snd (snd best) \<le> ahi
     \<Longrightarrow> fst (extend_right a b ahi bhi best) = fst best
         \<and> fst best + snd (snd (extend_right a b ahi bhi best)) \<le> ahi"
proof (induction a b ahi bhi best rule: extend_right.induct)
  case (1 a b ahi bhi besti bestj bestsize)
  then show ?case by (auto simp del: extend_right.simps simp: extend_right.simps [of a b ahi bhi besti])
qed

lemma find_longest_match_bounds:
  assumes "find_longest_match popular a b alo ahi blo bhi = (i, j, k)" and "k \<noteq> 0"
  shows "alo \<le> i \<and> i + k \<le> ahi"
proof (cases "alo \<le> ahi")
  case True
  let ?xs = "take (ahi - alo) (drop alo a)"
  let ?r = "longest_rows popular (take (bhi - blo) (drop blo b)) blo alo ?xs
              (replicate (bhi - blo) 0) (alo, blo, 0)"
  have "alo \<le> fst ?r \<and> fst ?r + snd (snd ?r) \<le> alo + length ?xs"
    by (rule longest_rows_bounds) simp_all
  moreover have "alo + length ?xs \<le> ahi"
    using True by simp
  ultimately have r: "alo \<le> fst ?r" "fst ?r + snd (snd ?r) \<le> ahi"
    by linarith+
  let ?l = "extend_left a b alo blo ?r"
  have l: "alo \<le> fst ?l" "fst ?l + snd (snd ?l) \<le> ahi"
    using extend_left_bounds [OF r(1), of a b blo] r(2) by auto
  have "fst (extend_right a b ahi bhi ?l) = fst ?l
          \<and> fst ?l + snd (snd (extend_right a b ahi bhi ?l)) \<le> ahi"
    by (rule extend_right_bounds [OF l(2)])
  with l(1) assms(1) show ?thesis
    by (simp add: find_longest_match_def)
next
  case False
  then have "find_longest_match popular a b alo ahi blo bhi = (alo, blo, 0)"
    by (simp add: find_longest_match_def)
  with assms show ?thesis by simp
qed

text \<open>
  \<^verbatim>\<open>get_matching_blocks\<close> splits the two ranges at the longest block and goes on to the
  left and to the right of it. \<^verbatim>\<open>ratio\<close> uses the sum of the block sizes only, which is
  what this function returns; the order in which the library works off its queue and its
  merging of adjacent blocks leave that sum as it is.
\<close>

function count_matches ::
  "(char \<Rightarrow> bool) \<Rightarrow> string \<Rightarrow> string \<Rightarrow> nat \<Rightarrow> nat \<Rightarrow> nat \<Rightarrow> nat \<Rightarrow> nat" where
  "count_matches popular a b alo ahi blo bhi =
     (case find_longest_match popular a b alo ahi blo bhi of
        (i, j, k) \<Rightarrow>
          if k = 0 then 0
          else k
            + (if alo < i \<and> blo < j then count_matches popular a b alo i blo j else 0)
            + (if i + k < ahi \<and> j + k < bhi
               then count_matches popular a b (i + k) ahi (j + k) bhi else 0))"
  by pat_completeness auto
termination
  apply (relation "measure (\<lambda>(popular, a, b, alo, ahi, blo, bhi). ahi - alo)")
    apply simp
   apply (auto dest!: find_longest_match_bounds [OF sym])
  done

definition calculate_ratio :: "nat \<Rightarrow> nat \<Rightarrow> rat" where
  "calculate_ratio matches len = (if len \<noteq> 0 then 2 * of_nat matches / of_nat len else 1)"

definition ratio :: "string \<Rightarrow> string \<Rightarrow> rat" where
  "ratio a b =
     calculate_ratio (count_matches (bpopular b) a b 0 (length a) 0 (length b))
       (length a + length b)"

text \<open>
  \<^verbatim>\<open>quick_ratio\<close>: \<open>avail\<close> holds, for each element, its count in \<open>b\<close> less the times it
  has been seen in \<open>a\<close>; it starts as the counts of \<open>b\<close> and may go below zero.
\<close>

fun quick_matches :: "string \<Rightarrow> (char \<Rightarrow> int) \<Rightarrow> nat" where
  "quick_matches [] avail = 0"
| "quick_matches (elt # as) avail =
     (let numb = avail elt
      in (if 0 < numb then 1 else 0) + quick_matches as (avail(elt := numb - 1)))"

definition quick_ratio :: "string \<Rightarrow> string \<Rightarrow> rat" where
  "quick_ratio a b =
     calculate_ratio (quick_matches a (\<lambda>elt. int (count_list b elt))) (length a + length b)"

definition real_quick_ratio :: "string \<Rightarrow> string \<Rightarrow> rat" where
  "real_quick_ratio a b = calculate_ratio (min (length a) (length b)) (length a + length b)"

text \<open>
  \<^verbatim>\<open>get_close_matches(word, possibilities, n, cutoff)\<close>. \<^verbatim>\<open>heapq.nlargest(n, result)\<close> is
  \<^verbatim>\<open>sorted(result, reverse=True)[:n]\<close>; the pairs of a score and a string are compared
  score first, strings by code point.
\<close>

definition close_enough :: "rat \<Rightarrow> string \<Rightarrow> string \<Rightarrow> bool" where
  "close_enough cutoff word x =
     (cutoff \<le> real_quick_ratio x word \<and> cutoff \<le> quick_ratio x word \<and> cutoff \<le> ratio x word)"

definition get_close_matches :: "string \<Rightarrow> string list \<Rightarrow> nat \<Rightarrow> rat \<Rightarrow> string list" where
  "get_close_matches word possibilities n cutoff =
     (let result = map (\<lambda>x. (ratio x word, x)) (filter (close_enough cutoff word) possibilities)
      in map snd (take n (rev (sort result))))"

subsection \<open>The validator\<close>

record validation_result =
  valid :: bool
  target :: string
  suggestion :: "string option"

text \<open>A broken link: the fields of the link, its validation and the confidence tag.\<close>

record broken_link =
  link_b :: link
  validation :: validation_result
  confidence :: string

text \<open>
  The state of a \<^verbatim>\<open>LinkValidator\<close>. \<open>all_files\<close> lists the elements of the Python set in
  its iteration order. Nothing is ever put into \<open>fixes_applied\<close>, so the type of its
  elements is of no account.
\<close>

record validator =
  docs_root :: docs_tree
  all_files :: "string list"
  links_found :: "link list"
  broken_links :: "broken_link list"
  fixes_applied :: "link list"
  external_links :: "link list"

text \<open>
  \<^verbatim>\<open>__init__\<close>, with the iteration order \<open>order\<close> that the set built by
  \<^verbatim>\<open>_build_file_index\<close> happens to have in this run.
\<close>

definition LinkValidator :: "string list \<Rightarrow> docs_tree \<Rightarrow> validator" where
  "LinkValidator order tree =
     \<lparr>docs_root = tree, all_files = order, links_found = [], broken_links = [],
      fixes_applied = [], external_links = []\<rparr>"

definition find_closest_match :: "validator \<Rightarrow> string \<Rightarrow> string option" where
  "find_closest_match v target_path =
     (let target_normalized = lower target_path;
          best_matches = get_close_matches target_normalized (map lower (all_files v)) 3 (6 / 10)
      in case best_matches of
           [] \<Rightarrow> None
         | best # _ \<Rightarrow> find (\<lambda>file_path. lower file_path = best) (all_files v))"

definition possible_paths :: "string \<Rightarrow> string list" where
  "possible_paths normalized =
     [normalized,
      lstrip_slash normalized,
      ''/'' @ lstrip_slash normalized,
      normalized @ ''.mdx'',
      normalized @ ''.md'']"

definition validate_internal_link :: "validator \<Rightarrow> link \<Rightarrow> validation_result" where
  "validate_internal_link v l =
     (let normalized = normalize_internal_path (url l)
      in case find (\<lambda>path. path \<in> set (all_files v)) (possible_paths normalized) of
           Some path \<Rightarrow> \<lparr>valid = True, target = path, suggestion = None\<rparr>
         | None \<Rightarrow>
             \<lparr>valid = False, target = normalized,
              suggestion = find_closest_match v normalized\<rparr>)"

text \<open>Python's truth value of an optional string: \<^verbatim>\<open>None\<close> and \<^verbatim>\<open>''\<close> are false.\<close>

definition truthy :: "string option \<Rightarrow> bool" where
  "truthy s = (case s of None \<Rightarrow> False | Some x \<Rightarrow> x \<noteq> [])"

text \<open>The body of the innermost loop of \<^verbatim>\<open>process_all_files\<close>, for one link.\<close>

definition process_link :: "link \<Rightarrow> validator \<Rightarrow> validator" where
  "process_link l v0 =
     (let v = v0\<lparr>links_found := links_found v0 @ [l]\<rparr>
      in if is_internal_link (url l)
         then (let validation = validate_internal_link v l
               in if \<not> valid validation
                  then v\<lparr>broken_links := broken_links v @
                           [\<lparr>link_b = l, validation = validation,
                             confidence = (if truthy (suggestion validation)
                                           then ''high'' else ''low'')\<rparr>]\<rparr>
                  else v)
         else v\<lparr>external_links := external_links v @ [l]\<rparr>)"

definition process_file :: "entry \<Rightarrow> validator \<Rightarrow> validator" where
  "process_file file_path v =
     (if is_file file_path then fold process_link (extract_links_from_file file_path) v else v)"

definition process_all_files :: "validator \<Rightarrow> validator" where
  "process_all_files v =
     fold process_file (glob ''.mdx'' (docs_root v) @ glob ''.md'' (docs_root v)) v"

record summary =
  total_files_scanned :: nat
  total_links_found :: nat
  internal_links :: nat
  external_links_s :: nat
  broken_internal_links :: nat
  fixes_applied_s :: nat

record report =
  summary_r :: summary
  broken_links_r :: "broken_link list"
  external_links_r :: "link list"
  fixes_applied_r :: "link list"
  all_links :: "link list"

definition generate_report :: "validator \<Rightarrow> report" where
  "generate_report v =
     \<lparr>summary_r =
        \<lparr>total_files_scanned =
           length (glob ''.mdx'' (docs_root v) @ glob ''.md'' (docs_root v)),
         total_links_found = length (links_found v),
         internal_links = length (filter (\<lambda>l. is_internal_link (url l)) (links_found v)),
         external_links_s = length (external_links v),
         broken_internal_links = length (broken_links v),
         fixes_applied_s = length (fixes_applied v)\<rparr>,
      broken_links_r = broken_links v,
      external_links_r = external_links v,
      fixes_applied_r = fixes_applied v,
      all_links = links_found v\<rparr>"

text \<open>The main program: build the validator, process all files, generate the report.\<close>

definition run :: "string list \<Rightarrow> docs_tree \<Rightarrow> report" where
  "run order tree = generate_report (process_all_files (LinkValidator order tree))"

subsection \<open>Notions for stating what a scan produces\<close>

text \<open>The files \<^verbatim>\<open>process_all_files\<close> walks: the two globs, one after the other.\<close>

definition scanned_files :: "docs_tree \<Rightarrow> entry list" where
  "scanned_files tree = glob ''.mdx'' tree @ glob ''.md'' tree"

text \<open>The links of a list of files, in the order the scan meets them.\<close>

definition links_of_files :: "entry list \<Rightarrow> link list" where
  "links_of_files fs = concat (map extract_links_from_file (filter is_file fs))"

text \<open>
  A link is broken for a validator when it is internal and its validation fails; the
  record appended to \<^verbatim>\<open>broken_links\<close> for it.
\<close>

definition is_broken :: "validator \<Rightarrow> link \<Rightarrow> bool" where
  "is_broken v l = (is_internal_link (url l) \<and> \<not> valid (validate_internal_link v l))"

definition broken_record :: "validator \<Rightarrow> link \<Rightarrow> broken_link" where
  "broken_record v l =
     \<lparr>link_b = l, validation = validate_internal_link v l,
      confidence = (if truthy (suggestion (validate_internal_link v l)) then ''high'' else ''low'')\<rparr>"

subsection \<open>Normalisation as the specification words it\<close>

text \<open>
  The specification's normalisation, written with prefixes and suffixes of lists: the
  remainder is the URL cut at the first \<open>#\<close> and then at the first \<open>?\<close>; a remainder that
  starts with \<open>./\<close> loses that prefix and gets the default extension; a remainder that
  starts with \<open>../\<close> is returned as it is; any other remainder gets the default extension.
\<close>

definition with_default_extension :: "string \<Rightarrow> string" where
  "with_default_extension p =
     (if \<exists>e\<in>{''.mdx'', ''.md'', ''.json'', ''.png'', ''.jpg'', ''.gif'', ''.svg''}. suffix e p
      then p else p @ ''.mdx'')"

definition normalize_spec :: "string \<Rightarrow> string" where
  "normalize_spec u =
     (let remainder = takeWhile (\<lambda>c. c \<noteq> CHR ''?'') (takeWhile (\<lambda>c. c \<noteq> CHR ''#'') u)
      in if prefix ''./'' remainder then with_default_extension (drop 2 remainder)
         else if prefix ''../'' remainder then remainder
         else with_default_extension remainder)"

subsection \<open>Data of the scenarios\<close>

text \<open>The link of \<^verbatim>\<open><img src="https://example.com/pic.png">\<close> and a link to a page.\<close>

definition picture_link :: link where
  "picture_link =
     \<lparr>file_l = ''index.mdx'', line = 1, type_l = src, text_l = [],
      url = ''https://example.com/pic.png'',
      raw_match = ''src='' @ [CHR 0x22] @ ''https://example.com/pic.png'' @ [CHR 0x22]\<rparr>"

definition intro_link :: link where
  "intro_link =
     \<lparr>file_l = ''index.mdx'', line = 1, type_l = markdown, text_l = ''intro'',
      url = ''guide/intro'', raw_match = ''[intro](guide/intro)''\<rparr>"



text \<open>An anchor whose attribute name and scheme are written in capitals.\<close>

definition uppercase_entry :: entry where
  "uppercase_entry =
     \<lparr>rel_path = ''index.mdx'', is_file = True,
      content = Some (''<a HREF='' @ [CHR 0x22] @ ''HTTP://example.com'' @ [CHR 0x22] @ ''>x</a>'')\<rparr>"

definition uppercase_link :: link where
  "uppercase_link =
     \<lparr>file_l = ''index.mdx'', line = 1, type_l = href, text_l = [],
      url = ''HTTP://example.com'',
      raw_match = ''HREF='' @ [CHR 0x22] @ ''HTTP://example.com'' @ [CHR 0x22]\<rparr>"

text \<open>
  The tree of the misspelt link: \<^verbatim>\<open>guide/intro.mdx\<close> exists and
  \<^verbatim>\<open>guide/other.mdx\<close> holds \<^verbatim>\<open>[bad](/guide/intor)\<close>; the index in the order of its
  insertions; the link extracted; and a link that resembles no indexed path.
\<close>

definition scenario_tree :: docs_tree where
  "scenario_tree =
     [\<lparr>rel_path = ''guide/intro.mdx'', is_file = True, content = Some ''Welcome''\<rparr>,
      \<lparr>rel_path = ''guide/other.mdx'', is_file = True,
       content = Some ''[bad](/guide/intor)''\<rparr>]"

definition scenario_order :: "string list" where
  "scenario_order =
     [''guide/intro.mdx'', ''guide/intro'', ''/guide/intro.mdx'', ''/guide/intro'',
      ''guide/other.mdx'', ''guide/other'', ''/guide/other.mdx'', ''/guide/other'']"

definition bad_link :: link where
  "bad_link =
     \<lparr>file_l = ''guide/other.mdx'', line = 1, type_l = markdown, text_l = ''bad'',
      url = ''/guide/intor'', raw_match = ''[bad](/guide/intor)''\<rparr>"

definition far_link :: link where
  "far_link =
     \<lparr>file_l = ''guide/other.mdx'', line = 1, type_l = markdown, text_l = ''log'',
      url = ''changelog'', raw_match = ''[log](changelog)''\<rparr>"

text \<open>
  A tree with two files whose names differ in letter case only, and two iteration
  orders of its index.
\<close>

definition case_tree :: docs_tree where
  "case_tree =
     [\<lparr>rel_path = ''Intro.mdx'', is_file = True, content = Some ''Welcome''\<rparr>,
      \<lparr>rel_path = ''intro.mdx'', is_file = True, content = Some ''[x](intor)''\<rparr>]"

definition case_order1 :: "string list" where
  "case_order1 =
     [''Intro.mdx'', ''Intro'', ''/Intro.mdx'', ''/Intro'',
      ''intro.mdx'', ''intro'', ''/intro.mdx'', ''/intro'']"

definition case_order2 :: "string list" where
  "case_order2 =
     [''intro.mdx'', ''intro'', ''/intro.mdx'', ''/intro'',
      ''Intro.mdx'', ''Intro'', ''/Intro.mdx'', ''/Intro'']"

text \<open>The suggestions of the broken links of a report, in order.\<close>

definition suggestions :: "report \<Rightarrow> string option list" where
  "suggestions r = map (\<lambda>b. suggestion (validation b)) (broken_links_r r)"

section \<open>Properties\<close>

subsection \<open>Strings\<close>

lemma py_split_nonempty: "py_split sep s \<noteq> []"
  by (induction s) (auto split: list.splits)

lemma hd_py_split: "hd (py_split sep s) = takeWhile (\<lambda>c. c \<noteq> sep) s"
  by (induction s) (auto split: list.splits simp: py_split_nonempty)

lemma startswith_prefix: "startswith s p = prefix p s"
  unfolding startswith_def
  by (metis append_eq_conv_conj prefix_def)

lemma endswith_suffix: "endswith s p = suffix p s"
proof
  assume "endswith s p"
  then have "drop (length s - length p) s = p" by (simp add: endswith_def)
  then have "s = take (length s - length p) s @ p"
    by (metis append_take_drop_id)
  then show "suffix p s" by (metis suffixI)
next
  assume "suffix p s"
  then obtain zs where "s = zs @ p" by (auto simp: suffix_def)
  then show "endswith s p" by (simp add: endswith_def)
qed

lemma startswith_any_iff: "startswith_any s ps = (\<exists>p\<in>set ps. prefix p s)"
  by (simp add: startswith_any_def list_ex_iff startswith_prefix)

lemma endswith_any_iff: "endswith_any s ps = (\<exists>p\<in>set ps. suffix p s)"
  by (simp add: endswith_any_def list_ex_iff endswith_suffix)

subsection \<open>Normalisation\<close>

text \<open>
  Claim C2. For every URL, \<^verbatim>\<open>normalize_internal_path\<close> computes the specification's
  normalisation: it cuts the URL at the first \<open>#\<close> and then at the first \<open>?\<close>; drops a
  leading \<open>./\<close>; returns a remainder that starts with \<open>../\<close> unchanged, without an
  extension; and otherwise appends \<open>.mdx\<close> unless the path ends in one of \<open>.mdx\<close>, \<open>.md\<close>,
  \<open>.json\<close>, \<open>.png\<close>, \<open>.jpg\<close>, \<open>.gif\<close>, \<open>.svg\<close>.
\<close>

theorem normalize_internal_path_spec: "normalize_internal_path u = normalize_spec u"
  by (simp add: normalize_internal_path_def normalize_spec_def with_default_extension_def
      hd_py_split startswith_prefix endswith_any_iff known_extensions_def Let_def)

text \<open>
  The test for \<open>../\<close> is made on the remainder as it stands before \<open>./\<close> is dropped: a
  remainder \<open>./../x\<close> loses \<open>./\<close> and then gets the extension.
\<close>

lemma normalize_dot_then_parent: "normalize_internal_path ''./../x'' = ''../x.mdx''"
  by code_simp

subsection \<open>One link, one file, all files\<close>

lemma find_closest_match_cong:
  "all_files v = all_files w \<Longrightarrow> find_closest_match v t = find_closest_match w t"
  by (simp add: find_closest_match_def split: list.split)

lemma validate_internal_link_cong:
  "all_files v = all_files w \<Longrightarrow> validate_internal_link v l = validate_internal_link w l"
proof -
  assume eq: "all_files v = all_files w"
  then have "find_closest_match v = find_closest_match w"
    by (intro ext find_closest_match_cong)
  with eq show ?thesis
    by (simp add: validate_internal_link_def Let_def cong: option.case_cong)
qed

lemma process_link_fixed:
  "docs_root (process_link l v) = docs_root v"
  "all_files (process_link l v) = all_files v"
  "fixes_applied (process_link l v) = fixes_applied v"
  by (simp_all add: process_link_def Let_def)

lemma process_link_links_found: "links_found (process_link l v) = links_found v @ [l]"
  by (simp add: process_link_def Let_def)

lemma process_link_external_links:
  "external_links (process_link l v) =
     external_links v @ (if is_internal_link (url l) then [] else [l])"
  by (simp add: process_link_def Let_def)

lemma process_link_broken_links:
  "broken_links (process_link l v) =
     broken_links v @ (if is_broken v l then [broken_record v l] else [])"
proof -
  have "validate_internal_link (v\<lparr>links_found := links_found v @ [l]\<rparr>) l
          = validate_internal_link v l"
    by (rule validate_internal_link_cong) simp
  then show ?thesis
    by (simp add: process_link_def Let_def is_broken_def broken_record_def)
qed

lemma broken_record_cong:
  "all_files v = all_files w \<Longrightarrow> broken_record v = broken_record w"
  by (rule ext) (simp add: broken_record_def validate_internal_link_cong [of v w])

lemma is_broken_cong: "all_files v = all_files w \<Longrightarrow> is_broken v = is_broken w"
  by (rule ext) (simp add: is_broken_def validate_internal_link_cong [of v w])

lemma fold_process_link_fixed:
  "docs_root (fold process_link ls v) = docs_root v"
  "all_files (fold process_link ls v) = all_files v"
  "fixes_applied (fold process_link ls v) = fixes_applied v"
  by (induction ls arbitrary: v) (simp_all add: process_link_fixed)

lemma fold_process_link_links_found:
  "links_found (fold process_link ls v) = links_found v @ ls"
  by (induction ls arbitrary: v) (simp_all add: process_link_links_found)

lemma fold_process_link_external_links:
  "external_links (fold process_link ls v) =
     external_links v @ filter (\<lambda>l. \<not> is_internal_link (url l)) ls"
  by (induction ls arbitrary: v) (simp_all add: process_link_external_links)

lemma fold_process_link_broken_links:
  "broken_links (fold process_link ls v) =
     broken_links v @ map (broken_record v) (filter (is_broken v) ls)"
proof (induction ls arbitrary: v)
  case Nil
  then show ?case by simp
next
  case (Cons l ls)
  have "all_files (process_link l v) = all_files v"
    by (rule process_link_fixed)
  then have "broken_record (process_link l v) = broken_record v"
    and "is_broken (process_link l v) = is_broken v"
    by (rule broken_record_cong, rule is_broken_cong)
  then show ?case
    by (simp add: Cons.IH process_link_broken_links)
qed

lemma links_of_files_Nil: "links_of_files [] = []"
  by (simp add: links_of_files_def)

lemma links_of_files_Cons:
  "links_of_files (f # fs) = (if is_file f then extract_links_from_file f else []) @ links_of_files fs"
  by (simp add: links_of_files_def)

lemma process_file_fixed:
  "docs_root (process_file f v) = docs_root v"
  "all_files (process_file f v) = all_files v"
  "fixes_applied (process_file f v) = fixes_applied v"
  by (simp_all add: process_file_def fold_process_link_fixed)

lemma process_file_links_found:
  "links_found (process_file f v) = links_found v @ links_of_files [f]"
  by (simp add: process_file_def links_of_files_def fold_process_link_links_found)

lemma process_file_external_links:
  "external_links (process_file f v) =
     external_links v @ filter (\<lambda>l. \<not> is_internal_link (url l)) (links_of_files [f])"
  by (simp add: process_file_def links_of_files_def fold_process_link_external_links)

lemma process_file_broken_links:
  "broken_links (process_file f v) =
     broken_links v @ map (broken_record v) (filter (is_broken v) (links_of_files [f]))"
  by (simp add: process_file_def links_of_files_def fold_process_link_broken_links)

lemma fold_process_file_fixed:
  "docs_root (fold process_file fs v) = docs_root v"
  "all_files (fold process_file fs v) = all_files v"
  "fixes_applied (fold process_file fs v) = fixes_applied v"
  by (induction fs arbitrary: v) (simp_all add: process_file_fixed)

lemma fold_process_file_links_found:
  "links_found (fold process_file fs v) = links_found v @ links_of_files fs"
proof (induction fs arbitrary: v)
  case Nil
  then show ?case by (simp add: links_of_files_def)
next
  case (Cons f fs)
  show ?case
    by (simp add: Cons.IH process_file_links_found links_of_files_Cons [of f fs]
        links_of_files_Cons [of f "[]"] links_of_files_Nil)
qed

lemma fold_process_file_external_links:
  "external_links (fold process_file fs v) =
     external_links v @ filter (\<lambda>l. \<not> is_internal_link (url l)) (links_of_files fs)"
proof (induction fs arbitrary: v)
  case Nil
  then show ?case by (simp add: links_of_files_def)
next
  case (Cons f fs)
  show ?case
    by (simp add: Cons.IH process_file_external_links links_of_files_Cons [of f fs]
        links_of_files_Cons [of f "[]"] links_of_files_Nil)
qed

lemma fold_process_file_broken_links:
  "broken_links (fold process_file fs v) =
     broken_links v @ map (broken_record v) (filter (is_broken v) (links_of_files fs))"
proof (induction fs arbitrary: v)
  case Nil
  then show ?case by (simp add: links_of_files_def)
next
  case (Cons f fs)
  have "all_files (process_file f v) = all_files v"
    by (rule process_file_fixed)
  then have "broken_record (process_file f v) = broken_record v"
    and "is_broken (process_file f v) = is_broken v"
    by (rule broken_record_cong, rule is_broken_cong)
  then show ?case
    by (simp add: Cons.IH process_file_broken_links links_of_files_Cons [of f fs]
        links_of_files_Cons [of f "[]"] links_of_files_Nil)
qed

lemma process_all_files_fold:
  "process_all_files v = fold process_file (scanned_files (docs_root v)) v"
  by (simp add: process_all_files_def scanned_files_def)

lemma LinkValidator_fields:
  "docs_root (LinkValidator order tree) = tree"
  "all_files (LinkValidator order tree) = order"
  "links_found (LinkValidator order tree) = []"
  "broken_links (LinkValidator order tree) = []"
  "fixes_applied (LinkValidator order tree) = []"
  "external_links (LinkValidator order tree) = []"
  by (simp_all add: LinkValidator_def)

lemma scan_links_found:
  "links_found (process_all_files (LinkValidator order tree)) = links_of_files (scanned_files tree)"
  by (simp add: process_all_files_fold fold_process_file_links_found LinkValidator_fields)

lemma scan_external_links:
  "external_links (process_all_files (LinkValidator order tree)) =
     filter (\<lambda>l. \<not> is_internal_link (url l)) (links_of_files (scanned_files tree))"
  by (simp add: process_all_files_fold fold_process_file_external_links LinkValidator_fields)

lemma scan_broken_links:
  "broken_links (process_all_files (LinkValidator order tree)) =
     map (broken_record (LinkValidator order tree))
       (filter (is_broken (LinkValidator order tree)) (links_of_files (scanned_files tree)))"
  by (simp add: process_all_files_fold fold_process_file_broken_links LinkValidator_fields)

lemma scan_fixes_applied:
  "fixes_applied (process_all_files (LinkValidator order tree)) = []"
  by (simp add: process_all_files_fold fold_process_file_fixed LinkValidator_fields)

lemma process_all_files_docs_root:
  "docs_root (process_all_files v) = docs_root v"
  by (simp add: process_all_files_fold fold_process_file_fixed)

text \<open>The report of a run, in terms of the links of the scanned files.\<close>

lemma run_report:
  "run order tree =
     \<lparr>summary_r =
        \<lparr>total_files_scanned = length (scanned_files tree),
         total_links_found = length (links_of_files (scanned_files tree)),
         internal_links =
           length (filter (\<lambda>l. is_internal_link (url l)) (links_of_files (scanned_files tree))),
         external_links_s =
           length (filter (\<lambda>l. \<not> is_internal_link (url l)) (links_of_files (scanned_files tree))),
         broken_internal_links =
           length (filter (is_broken (LinkValidator order tree)) (links_of_files (scanned_files tree))),
         fixes_applied_s = 0\<rparr>,
      broken_links_r =
        map (broken_record (LinkValidator order tree))
          (filter (is_broken (LinkValidator order tree)) (links_of_files (scanned_files tree))),
      external_links_r =
        filter (\<lambda>l. \<not> is_internal_link (url l)) (links_of_files (scanned_files tree)),
      fixes_applied_r = [],
      all_links = links_of_files (scanned_files tree)\<rparr>"
  by (simp add: run_def generate_report_def scan_links_found scan_external_links
      scan_broken_links scan_fixes_applied process_all_files_docs_root LinkValidator_fields
      scanned_files_def [symmetric])

text \<open>
  Claim C3. A URL is classified external exactly when it begins with \<open>http://\<close>,
  \<open>https://\<close>, \<open>mailto:\<close>, \<open>tel:\<close> or \<open>ftp:\<close>. Processing an external link appends it to
  the links found and to the external links and does nothing else: no validation enters
  the new state. Processing any other link appends it to the links found, leaves the
  external links alone and records it as broken exactly when its validation fails. Over a
  whole scan no link is dropped: the links found are the links of the scanned files, the
  external links are those among them classified external, and the broken links are the
  records of those among them that are internal and fail validation.
\<close>

theorem classification_partitions_links:
  "is_internal_link u =
     (\<not> (prefix ''http://'' u \<or> prefix ''https://'' u \<or> prefix ''mailto:'' u
         \<or> prefix ''tel:'' u \<or> prefix ''ftp:'' u))
   \<and> (\<not> is_internal_link (url l) \<longrightarrow>
        process_link l v =
          v\<lparr>links_found := links_found v @ [l], external_links := external_links v @ [l]\<rparr>)
   \<and> (is_internal_link (url l) \<longrightarrow>
        links_found (process_link l v) = links_found v @ [l]
        \<and> external_links (process_link l v) = external_links v
        \<and> broken_links (process_link l v) =
            broken_links v @ (if valid (validate_internal_link v l) then [] else [broken_record v l]))
   \<and> (let scanned = process_all_files (LinkValidator order tree)
      in links_found scanned = links_of_files (scanned_files tree)
         \<and> external_links scanned =
             filter (\<lambda>l. \<not> is_internal_link (url l)) (links_found scanned)
         \<and> broken_links scanned =
             map (broken_record (LinkValidator order tree))
               (filter (is_broken (LinkValidator order tree)) (links_found scanned)))"
proof -
  have "is_internal_link u =
     (\<not> (prefix ''http://'' u \<or> prefix ''https://'' u \<or> prefix ''mailto:'' u
         \<or> prefix ''tel:'' u \<or> prefix ''ftp:'' u))"
    by (auto simp add: is_internal_link_def startswith_any_iff)
  moreover have "\<not> is_internal_link (url l) \<longrightarrow>
        process_link l v =
          v\<lparr>links_found := links_found v @ [l], external_links := external_links v @ [l]\<rparr>"
    by (simp add: process_link_def Let_def)
  moreover have "is_internal_link (url l) \<longrightarrow>
        links_found (process_link l v) = links_found v @ [l]
        \<and> external_links (process_link l v) = external_links v
        \<and> broken_links (process_link l v) =
            broken_links v @ (if valid (validate_internal_link v l) then [] else [broken_record v l])"
    by (simp add: process_link_links_found process_link_external_links
        process_link_broken_links is_broken_def)
  ultimately show ?thesis
    by (simp only: Let_def scan_links_found scan_external_links scan_broken_links simp_thms)
qed

lemma picture_link_external: "\<not> is_internal_link (url picture_link)"
  by (simp add: picture_link_def is_internal_link_def startswith_any_def startswith_def)

lemma intro_link_internal: "is_internal_link (url intro_link)"
  by (simp add: intro_link_def is_internal_link_def startswith_any_def startswith_def)

theorem classification_partitions_links_witness:
  "\<not> is_internal_link (url picture_link)
   \<and> process_link picture_link (LinkValidator [] []) =
       (LinkValidator [] [])\<lparr>links_found := [picture_link], external_links := [picture_link]\<rparr>
   \<and> is_internal_link (url intro_link)
   \<and> links_found (process_link intro_link (LinkValidator [] [])) = [intro_link]
   \<and> external_links (process_link intro_link (LinkValidator [] [])) = []"
  using classification_partitions_links [of "[]" picture_link "LinkValidator [] []" "[]" "[]"]
    classification_partitions_links [of "[]" intro_link "LinkValidator [] []" "[]" "[]"]
    picture_link_external intro_link_internal
  by (simp add: LinkValidator_fields)

text \<open>
  Claim C7. For every tree the list \<^verbatim>\<open>fixes_applied\<close> is empty at construction, after
  any number of processed files and links, after the whole scan and in the report, whose
  summary gives the count zero.
\<close>

theorem fixes_applied_always_empty:
  "fixes_applied (LinkValidator order tree) = []
   \<and> fixes_applied (fold process_link ls (fold process_file fs (LinkValidator order tree))) = []
   \<and> fixes_applied (process_all_files (LinkValidator order tree)) = []
   \<and> fixes_applied_r (run order tree) = []
   \<and> fixes_applied_s (summary_r (run order tree)) = 0"
  by (simp add: run_report scan_fixes_applied fold_process_link_fixed
      fold_process_file_fixed LinkValidator_fields)

lemma length_filter_conj_le:
  "length (filter (\<lambda>x. P x \<and> Q x) xs) \<le> length (filter P xs)"
  by (induction xs) auto

text \<open>
  Claim C10. In the summary of every report the internal and the external link counts add
  up to the total of links found, and the count of broken internal links is at most the
  count of internal links.
\<close>

theorem summary_counts_add_up:
  "internal_links (summary_r (run order tree)) + external_links_s (summary_r (run order tree))
     = total_links_found (summary_r (run order tree))
   \<and> broken_internal_links (summary_r (run order tree))
       \<le> internal_links (summary_r (run order tree))"
proof -
  let ?ls = "links_of_files (scanned_files tree)"
  let ?v = "LinkValidator order tree"
  have "length (filter (\<lambda>l. is_internal_link (url l)) ?ls)
          + length (filter (\<lambda>l. \<not> is_internal_link (url l)) ?ls) = length ?ls"
    by (rule sum_length_filter_compl)
  moreover have "length (filter (is_broken ?v) ?ls)
          \<le> length (filter (\<lambda>l. is_internal_link (url l)) ?ls)"
    unfolding is_broken_def by (rule length_filter_conj_le)
  ultimately show ?thesis
    by (simp add: run_report)
qed








subsection \<open>Letter case of the scheme\<close>

lemma extract_uppercase_entry: "extract_links_from_file uppercase_entry = [uppercase_link]"
  by code_simp

lemma lower_take: "lower (take k s) = take k (lower s)"
  by (simp add: lower_def take_map)

lemma common_prefix_of_case_variant:
  assumes "lower (take (length p) u) = p" and "take (length q) u = q" and "lower q = q"
  shows "take (min (length p) (length q)) p = take (min (length p) (length q)) q"
proof -
  let ?k = "min (length p) (length q)"
  have "take ?k p = take ?k (lower (take (length p) u))"
    using assms(1) by simp
  also have "\<dots> = lower (take ?k u)"
    by (simp add: lower_take [symmetric] min.absorb1)
  also have "\<dots> = lower (take ?k (take (length q) u))"
    by (simp add: min.absorb1)
  also have "\<dots> = take ?k (lower q)"
    using assms(2) by (simp add: lower_take)
  finally show ?thesis using assms(3) by simp
qed

lemma scheme_prefixes_lower:
  "q \<in> {''http://'', ''https://'', ''mailto:'', ''tel:'', ''ftp:''} \<Longrightarrow> lower q = q"
  by (auto simp: lower_def char_lower_def)

lemma scheme_prefixes_apart:
  "p \<in> {''http://'', ''https://'', ''mailto:'', ''tel:'', ''ftp:''}
     \<Longrightarrow> q \<in> {''http://'', ''https://'', ''mailto:'', ''tel:'', ''ftp:''}
     \<Longrightarrow> take (min (length p) (length q)) p = take (min (length p) (length q)) q
     \<Longrightarrow> p = q"
  by auto

lemma case_variant_not_prefixed:
  assumes p: "p \<in> {''http://'', ''https://'', ''mailto:'', ''tel:'', ''ftp:''}"
    and low: "lower (take (length p) u) = p"
    and neq: "take (length p) u \<noteq> p"
    and q: "q \<in> {''http://'', ''https://'', ''mailto:'', ''tel:'', ''ftp:''}"
  shows "\<not> prefix q u"
proof
  assume "prefix q u"
  then have tq: "take (length q) u = q"
    by (auto simp: prefix_def)
  have "take (min (length p) (length q)) p = take (min (length p) (length q)) q"
    by (rule common_prefix_of_case_variant [OF low tq scheme_prefixes_lower [OF q]])
  then have "p = q"
    by (rule scheme_prefixes_apart [OF p q])
  with tq neq show False by simp
qed

lemma is_internal_link_prefix:
  "is_internal_link u =
     (\<not> (prefix ''http://'' u \<or> prefix ''https://'' u \<or> prefix ''mailto:'' u
         \<or> prefix ''tel:'' u \<or> prefix ''ftp:'' u))"
  by (auto simp add: is_internal_link_def startswith_any_iff)

text \<open>
  Claim C9. The classification compares the scheme prefixes case-sensitively, whereas the
  extraction matches \<open>href=\<close> and \<open>src=\<close> in any case. A link whose URL begins with a
  variant in other letter case of \<open>http://\<close>, \<open>https://\<close>, \<open>mailto:\<close>, \<open>tel:\<close> or \<open>ftp:\<close>
  (such as \<open>HTTP://example.com\<close>) is classified internal: processing it leaves the external
  links alone and passes it to the validator, which records it as broken unless it
  validates. The anchor \<^verbatim>\<open><a HREF="HTTP://example.com">\<close> is extracted as such a link.
\<close>

theorem mixed_case_scheme_is_internal:
  assumes "p \<in> {''http://'', ''https://'', ''mailto:'', ''tel:'', ''ftp:''}"
    and "lower (take (length p) (url l)) = p"
    and "take (length p) (url l) \<noteq> p"
  shows "is_internal_link (url l)
   \<and> links_found (process_link l v) = links_found v @ [l]
   \<and> external_links (process_link l v) = external_links v
   \<and> broken_links (process_link l v) =
       broken_links v @ (if valid (validate_internal_link v l) then [] else [broken_record v l])
   \<and> extract_links_from_file uppercase_entry = [uppercase_link]"
proof -
  have "is_internal_link (url l)"
    unfolding is_internal_link_prefix
    using case_variant_not_prefixed [OF assms] by simp
  then show ?thesis
    by (simp add: process_link_links_found process_link_external_links
        process_link_broken_links is_broken_def extract_uppercase_entry)
qed

theorem mixed_case_scheme_is_internal_witness:
  "lower (take (length ''http://'') (url uppercase_link)) = ''http://''
   \<and> take (length ''http://'') (url uppercase_link) \<noteq> ''http://''
   \<and> is_internal_link (url uppercase_link)
   \<and> external_links (process_link uppercase_link (LinkValidator [] [])) = []
   \<and> map link_b (broken_links (process_link uppercase_link (LinkValidator [] []))) = [uppercase_link]"
proof -
  have a: "lower (take (length ''http://'') (url uppercase_link)) = ''http://''"
    by code_simp
  have b: "take (length ''http://'') (url uppercase_link) \<noteq> ''http://''"
    by (simp add: uppercase_link_def)
  have c: "\<not> valid (validate_internal_link (LinkValidator [] []) uppercase_link)"
    by (simp add: validate_internal_link_def LinkValidator_fields possible_paths_def Let_def)
  show ?thesis
    using a b c
      mixed_case_scheme_is_internal [of "''http://''" uppercase_link "LinkValidator [] []", OF _ a b]
    by (simp add: LinkValidator_fields broken_record_def)
qed

subsection \<open>The file index and the lookup\<close>



lemma build_file_index_variants:
  "build_file_index tree =
     (\<Union>e\<in>set (indexed_files tree).
        {rel_path e, with_suffix_empty (rel_path e),
         ''/'' @ rel_path e, ''/'' @ with_suffix_empty (rel_path e)})"
  by (auto simp: build_file_index_def file_variants_def)


lemma takeWhile_upto:
  "x \<notin> set xs \<Longrightarrow> takeWhile (\<lambda>c. c \<noteq> x) (xs @ x # ys) = xs"
  by (induction xs) auto

lemma takeWhile_absent: "x \<notin> set xs \<Longrightarrow> takeWhile (\<lambda>c. c \<noteq> x) xs = xs"
  by (induction xs) auto

text \<open>For an ordinary file name the variant without extension is the path less its suffix.\<close>

lemma path_name_append:
  assumes "CHR ''/'' \<notin> set name" and "dir = [] \<or> last dir = CHR ''/''"
  shows "path_name (dir @ name) = name"
proof (cases "dir = []")
  case True
  with assms(1) show ?thesis
    by (simp add: path_name_def takeWhile_absent)
next
  case False
  with assms(2) obtain d where d: "dir = d @ ''/''"
    by (metis append_butlast_last_id)
  have "takeWhile (\<lambda>c. c \<noteq> CHR ''/'') (rev name @ CHR ''/'' # rev d) = rev name"
    using assms(1) by (simp add: takeWhile_upto)
  then show ?thesis
    by (simp add: path_name_def d)
qed

lemma rfind_dot_append:
  assumes "CHR ''.'' \<notin> set ext"
  shows "rfind_dot (stem @ CHR ''.'' # ext) = Some (length stem)"
proof -
  have "takeWhile (\<lambda>c. c \<noteq> CHR ''.'') (rev ext @ CHR ''.'' # rev stem) = rev ext"
    using assms by (simp add: takeWhile_upto)
  then show ?thesis
    by (simp add: rfind_dot_def)
qed

lemma with_suffix_empty_strips:
  assumes "stem \<noteq> []" and "CHR ''/'' \<notin> set stem"
    and "ext \<noteq> []" and "CHR ''/'' \<notin> set ext" and "CHR ''.'' \<notin> set ext"
    and "dir = [] \<or> last dir = CHR ''/''"
  shows "with_suffix_empty (dir @ stem @ ''.'' @ ext) = dir @ stem"
proof -
  have "path_name (dir @ (stem @ CHR ''.'' # ext)) = stem @ CHR ''.'' # ext"
    using assms(2,4,6) by (intro path_name_append) auto
  then have name: "path_name (dir @ stem @ CHR ''.'' # ext) = stem @ CHR ''.'' # ext"
    by simp
  show ?thesis
    using assms(1,3)
    by (simp add: with_suffix_empty_def name rfind_dot_append [OF assms(5)] Let_def)
qed

lemma with_suffix_empty_example:
  "with_suffix_empty ''guide/intro.mdx'' = ''guide/intro''
   \<and> with_suffix_empty ''notes.v2/read.me.md'' = ''notes.v2/read.me''"
  using with_suffix_empty_strips [of "''intro''" "''mdx''" "''guide/''"]
    with_suffix_empty_strips [of "''read.me''" "''md''" "''notes.v2/''"]
  by simp


subsection \<open>The iteration order of the index\<close>

lemma sort_mset_cong:
  fixes xs ys :: "('a :: linorder) list"
  shows "mset xs = mset ys \<Longrightarrow> sort xs = sort ys"
  by (rule properties_for_sort) simp_all

lemma get_close_matches_mset:
  assumes "mset ps = mset qs"
  shows "get_close_matches word ps n cutoff = get_close_matches word qs n cutoff"
proof -
  let ?result = "\<lambda>xs. map (\<lambda>x. (ratio x word, x)) (filter (close_enough cutoff word) xs)"
  have "mset (?result ps) = mset (?result qs)"
    using assms by simp
  then have "sort (?result ps) = sort (?result qs)"
    by (rule sort_mset_cong)
  then show ?thesis
    by (simp add: get_close_matches_def Let_def)
qed

lemma find_unique_cong:
  assumes "set xs = set ys"
    and "\<And>x y. x \<in> set xs \<Longrightarrow> y \<in> set xs \<Longrightarrow> P x \<Longrightarrow> P y \<Longrightarrow> x = y"
  shows "find P xs = find P ys"
proof (cases "find P xs")
  case None
  then have "\<not> (\<exists>x\<in>set ys. P x)"
    using assms(1) by (simp add: find_None_iff)
  then have "find P ys = None"
    by (simp add: find_None_iff)
  with None show ?thesis by simp
next
  case (Some x)
  then have x: "x \<in> set xs" "P x"
    by (auto simp: find_Some_iff)
  then have "find P ys \<noteq> None"
    using assms(1) by (auto simp: find_None_iff)
  then obtain y where y: "find P ys = Some y" by auto
  then have "y \<in> set ys" "P y"
    by (auto simp: find_Some_iff)
  then have "y = x"
    using assms x by auto
  with Some y show ?thesis by simp
qed

lemma find_closest_match_order:
  assumes "distinct (all_files v)" and "distinct (all_files w)"
    and "set (all_files v) = set (all_files w)"
    and "inj_on lower (set (all_files v))"
  shows "find_closest_match v t = find_closest_match w t"
proof -
  have "mset (all_files v) = mset (all_files w)"
    using assms(1,2,3) by (simp add: set_eq_iff_mset_eq_distinct)
  then have "mset (map lower (all_files v)) = mset (map lower (all_files w))"
    by simp
  then have close: "get_close_matches (lower t) (map lower (all_files v)) 3 (6 / 10)
            = get_close_matches (lower t) (map lower (all_files w)) 3 (6 / 10)"
    by (rule get_close_matches_mset)
  have "find (\<lambda>file_path. lower file_path = best) (all_files v)
          = find (\<lambda>file_path. lower file_path = best) (all_files w)" for best
    using assms(3,4) by (intro find_unique_cong) (auto dest: inj_onD)
  with close show ?thesis
    by (simp add: find_closest_match_def Let_def split: list.split)
qed

lemma validate_internal_link_order:
  assumes "distinct (all_files v)" and "distinct (all_files w)"
    and "set (all_files v) = set (all_files w)"
    and "inj_on lower (set (all_files v))"
  shows "validate_internal_link v l = validate_internal_link w l"
proof -
  have "find_closest_match v = find_closest_match w"
    by (intro ext find_closest_match_order assms)
  with assms(3) show ?thesis
    by (simp add: validate_internal_link_def Let_def cong: option.case_cong)
qed

lemma run_order:
  assumes "set_iteration order1 S" and "set_iteration order2 S" and "inj_on lower S"
  shows "run order1 tree = run order2 tree"
proof -
  have "validate_internal_link (LinkValidator order1 tree) l
          = validate_internal_link (LinkValidator order2 tree) l" for l
    using assms
    by (intro validate_internal_link_order) (simp_all add: set_iteration_def LinkValidator_fields)
  then have "is_broken (LinkValidator order1 tree) = is_broken (LinkValidator order2 tree)"
    and "broken_record (LinkValidator order1 tree) = broken_record (LinkValidator order2 tree)"
    by (auto simp: is_broken_def broken_record_def fun_eq_iff)
  then show ?thesis
    by (simp add: run_report)
qed

lemma scenario_insertions:
  "concat (map (\<lambda>e. file_variants (rel_path e)) (indexed_files scenario_tree)) = scenario_order"
  by code_simp

lemma scenario_order_iteration: "set_iteration scenario_order (build_file_index scenario_tree)"
  unfolding set_iteration_def build_file_index_def scenario_insertions
  by (simp add: scenario_order_def)

lemma scenario_lower_inj: "inj_on lower (build_file_index scenario_tree)"
proof -
  have "distinct (map lower scenario_order)"
    by code_simp
  then have "inj_on lower (set scenario_order)"
    by (simp add: distinct_map)
  then show ?thesis
    by (simp add: build_file_index_def scenario_insertions)
qed

lemma scenario_links: "links_of_files (scanned_files scenario_tree) = [bad_link]"
  by code_simp

lemma scenario_normalized: "normalize_internal_path (url bad_link) = ''/guide/intor.mdx''"
  by code_simp

lemma scenario_ratios:
  "ratio (lower ''/guide/intro.mdx'') (lower ''/guide/intor.mdx'') = 15 / 16
   \<and> ratio (lower ''/guide/intro'') (lower ''/guide/intor.mdx'') = 11 / 14"
  by code_simp

lemma scenario_validation:
  "validate_internal_link (LinkValidator scenario_order scenario_tree) bad_link =
     \<lparr>valid = False, target = ''/guide/intor.mdx'', suggestion = Some ''/guide/intro.mdx''\<rparr>"
  by code_simp

lemma scenario_run:
  "broken_links_r (run scenario_order scenario_tree) =
     [\<lparr>link_b = bad_link,
       validation =
         \<lparr>valid = False, target = ''/guide/intor.mdx'', suggestion = Some ''/guide/intro.mdx''\<rparr>,
       confidence = ''high''\<rparr>]"
  by code_simp

subsection \<open>Suggestions and confidence\<close>

lemma length_path_name: "length (path_name p) \<le> length p"
  using length_takeWhile_le [of "\<lambda>c. c \<noteq> CHR ''/''" "rev p"]
  by (simp add: path_name_def)

lemma with_suffix_empty_nonempty: "p \<noteq> [] \<Longrightarrow> with_suffix_empty p \<noteq> []"
  using length_path_name [of p]
  by (auto simp: with_suffix_empty_def Let_def split: option.splits)

lemma glob_rel_path_nonempty:
  "e \<in> set (glob ext tree) \<Longrightarrow> ext \<noteq> [] \<Longrightarrow> rel_path e \<noteq> []"
  by (auto simp: glob_def endswith_def path_name_def)

lemma index_entries_nonempty: "s \<in> build_file_index tree \<Longrightarrow> s \<noteq> []"
proof -
  assume "s \<in> build_file_index tree"
  then obtain e where e: "e \<in> set (indexed_files tree)"
    and s: "s \<in> {rel_path e, with_suffix_empty (rel_path e),
                  ''/'' @ rel_path e, ''/'' @ with_suffix_empty (rel_path e)}"
    by (auto simp: build_file_index_variants)
  from e have "rel_path e \<noteq> []"
    by (auto simp: indexed_files_def dest: glob_rel_path_nonempty)
  with s show ?thesis
    by (auto dest: with_suffix_empty_nonempty)
qed

lemma find_closest_match_in_index:
  "find_closest_match v t = Some s \<Longrightarrow> s \<in> set (all_files v)"
  by (auto simp: find_closest_match_def Let_def find_Some_iff split: list.splits)

lemma no_close_match:
  assumes "\<forall>f\<in>set (all_files v). ratio (lower f) (lower t) < 6 / 10"
  shows "find_closest_match v t = None"
proof -
  have "filter (close_enough (6 / 10) (lower t)) (map lower (all_files v)) = []"
    using assms by (auto simp: filter_empty_conv close_enough_def)
  then have "get_close_matches (lower t) (map lower (all_files v)) 3 (6 / 10) = []"
    by (simp add: get_close_matches_def)
  then show ?thesis
    by (simp add: find_closest_match_def)
qed

lemma validation_of_broken:
  "\<not> valid (validate_internal_link v l) \<Longrightarrow>
     validate_internal_link v l =
       \<lparr>valid = False, target = normalize_internal_path (url l),
        suggestion = find_closest_match v (normalize_internal_path (url l))\<rparr>"
  by (simp add: validate_internal_link_def Let_def split: option.splits)

lemma suggestion_in_index:
  "suggestion (validate_internal_link v l) = Some s \<Longrightarrow> s \<in> set (all_files v)"
  by (auto simp: validate_internal_link_def Let_def split: option.splits
      dest: find_closest_match_in_index)

text \<open>
  Claim C5. When a link is internal, its lookup fails and the normalised target, letter
  case apart, has a similarity below 0.6 to every indexed path, the record appended for it
  has no suggestion and the confidence \<open>low\<close>. In every record of a scan the confidence is
  \<open>high\<close> when a suggestion is present and \<open>low\<close> when there is none.
\<close>

theorem no_close_match_low_confidence:
  "(is_broken v l
      \<and> (\<forall>f\<in>set (all_files v).
            ratio (lower f) (lower (normalize_internal_path (url l))) < 6 / 10)
     \<longrightarrow> broken_links (process_link l v) =
           broken_links v @
             [\<lparr>link_b = l,
               validation =
                 \<lparr>valid = False, target = normalize_internal_path (url l), suggestion = None\<rparr>,
               confidence = ''low''\<rparr>])
   \<and> (set_iteration order (build_file_index tree)
     \<longrightarrow> (\<forall>b\<in>set (broken_links (process_all_files (LinkValidator order tree))).
            confidence b = (if suggestion (validation b) = None then ''low'' else ''high'')))"
proof (intro conjI impI ballI)
  assume a: "is_broken v l
      \<and> (\<forall>f\<in>set (all_files v).
            ratio (lower f) (lower (normalize_internal_path (url l))) < 6 / 10)"
  then have "\<not> valid (validate_internal_link v l)"
    by (simp add: is_broken_def)
  then have "validate_internal_link v l =
       \<lparr>valid = False, target = normalize_internal_path (url l), suggestion = None\<rparr>"
    using a by (simp add: validation_of_broken no_close_match)
  then show "broken_links (process_link l v) =
           broken_links v @
             [\<lparr>link_b = l,
               validation =
                 \<lparr>valid = False, target = normalize_internal_path (url l), suggestion = None\<rparr>,
               confidence = ''low''\<rparr>]"
    using a by (simp add: process_link_broken_links broken_record_def truthy_def)
next
  fix b
  assume it: "set_iteration order (build_file_index tree)"
    and "b \<in> set (broken_links (process_all_files (LinkValidator order tree)))"
  then obtain l where b: "b = broken_record (LinkValidator order tree) l"
    by (auto simp: scan_broken_links)
  have "s \<noteq> []" if "suggestion (validate_internal_link (LinkValidator order tree) l) = Some s"
    for s
  proof -
    have "s \<in> set order"
      using suggestion_in_index [OF that] by (simp add: LinkValidator_fields)
    then show ?thesis
      using it by (auto simp: set_iteration_def dest: index_entries_nonempty)
  qed
  then show "confidence b = (if suggestion (validation b) = None then ''low'' else ''high'')"
    by (auto simp: b broken_record_def truthy_def split: option.splits)
qed


subsection \<open>The scenario of the misspelt link\<close>

lemma bad_link_internal: "is_internal_link (url bad_link)"
  by (simp add: bad_link_def is_internal_link_def startswith_any_def startswith_def)

lemma scenario_report:
  "broken_links_r (run scenario_order scenario_tree) =
     [\<lparr>link_b = bad_link,
       validation =
         \<lparr>valid = False, target = ''/guide/intor.mdx'', suggestion = Some ''/guide/intro.mdx''\<rparr>,
       confidence = ''high''\<rparr>]"
  by (simp add: run_report scenario_links is_broken_def broken_record_def bad_link_internal
      scenario_validation truthy_def)

text \<open>
  Claim C4, as the code has it. In the tree where \<^verbatim>\<open>guide/intro.mdx\<close> exists and a scanned
  file holds \<^verbatim>\<open>[bad](/guide/intor)\<close>, whatever the iteration order of the index: the link
  normalises to \<^verbatim>\<open>/guide/intor.mdx\<close>, the lookup fails, the approximate match clears the
  cutoff 0.6, and the record of the broken link has the confidence \<open>high\<close> and the
  suggestion \<^verbatim>\<open>/guide/intro.mdx\<close>, the indexed path closest to the target (similarity
  15/16), not \<^verbatim>\<open>/guide/intro\<close> (similarity 11/14).
\<close>

theorem misspelt_link_suggestion:
  assumes "set_iteration order (build_file_index scenario_tree)"
  shows "links_of_files (scanned_files scenario_tree) = [bad_link]
   \<and> normalize_internal_path (url bad_link) = ''/guide/intor.mdx''
   \<and> \<not> valid (validate_internal_link (LinkValidator order scenario_tree) bad_link)
   \<and> 6 / 10 \<le> ratio (lower ''/guide/intro.mdx'') (lower ''/guide/intor.mdx'')
   \<and> broken_links_r (run order scenario_tree) =
       [\<lparr>link_b = bad_link,
         validation =
           \<lparr>valid = False, target = ''/guide/intor.mdx'',
            suggestion = Some ''/guide/intro.mdx''\<rparr>,
         confidence = ''high''\<rparr>]"
proof -
  have "validate_internal_link (LinkValidator order scenario_tree) bad_link
          = validate_internal_link (LinkValidator scenario_order scenario_tree) bad_link"
    using assms scenario_order_iteration scenario_lower_inj
    by (intro validate_internal_link_order) (simp_all add: set_iteration_def LinkValidator_fields)
  then have "\<not> valid (validate_internal_link (LinkValidator order scenario_tree) bad_link)"
    by (simp add: scenario_validation)
  moreover have "run order scenario_tree = run scenario_order scenario_tree"
    by (rule run_order [OF assms scenario_order_iteration scenario_lower_inj])
  ultimately show ?thesis
    using scenario_ratios
    by (simp add: scenario_links scenario_normalized scenario_report)
qed

theorem misspelt_link_suggestion_witness:
  "set_iteration scenario_order (build_file_index scenario_tree)
   \<and> suggestions (run scenario_order scenario_tree) = [Some ''/guide/intro.mdx'']
   \<and> map confidence (broken_links_r (run scenario_order scenario_tree)) = [''high'']"
  using misspelt_link_suggestion [OF scenario_order_iteration] scenario_order_iteration
  by (simp add: suggestions_def)

text \<open>The suggestion in that scenario is not \<^verbatim>\<open>/guide/intro\<close>.\<close>

theorem misspelt_link_suggestion_keeps_extension:
  "set_iteration scenario_order (build_file_index scenario_tree)
   \<and> suggestions (run scenario_order scenario_tree) \<noteq> [Some ''/guide/intro'']"
  using scenario_order_iteration
  by (simp add: suggestions_def scenario_report)

text \<open>
  Whatever else the index holds: as long as \<^verbatim>\<open>/guide/intro.mdx\<close> is indexed, the
  suggestion for the target \<^verbatim>\<open>/guide/intor.mdx\<close> is never \<^verbatim>\<open>/guide/intro\<close>, which scores
  lower.
\<close>

lemma sorted_le_last:
  fixes ys :: "('a :: linorder) list"
  assumes "sorted ys" and "x \<in> set ys"
  shows "x \<le> last ys"
proof -
  from assms(2) obtain i where i: "i < length ys" "ys ! i = x"
    by (auto simp: in_set_conv_nth)
  then have "ys \<noteq> []" by auto
  then have "last ys = ys ! (length ys - 1)"
    by (rule last_conv_nth)
  moreover have "ys ! i \<le> ys ! (length ys - 1)"
    using assms(1) i(1) by (intro sorted_nth_mono) auto
  ultimately show ?thesis using i(2) by simp
qed

lemma get_close_matches_best:
  assumes "get_close_matches word ps 3 cutoff = best # rest"
    and "x \<in> set ps" and "close_enough cutoff word x"
  shows "best \<in> set ps \<and> (ratio x word, x) \<le> (ratio best word, best)"
proof -
  let ?result = "map (\<lambda>x. (ratio x word, x)) (filter (close_enough cutoff word) ps)"
  have x: "(ratio x word, x) \<in> set (sort ?result)"
    using assms(2,3) by auto
  then have ne: "sort ?result \<noteq> []"
    by (metis empty_iff list.set(1))
  have "map snd (take 3 (rev (sort ?result))) = best # rest"
    using assms(1) by (simp add: get_close_matches_def Let_def)
  then have "best = snd (hd (take 3 (rev (sort ?result))))"
    by (cases "take 3 (rev (sort ?result))") auto
  then have best: "best = snd (last (sort ?result))"
    by (simp add: hd_rev)
  have "last (sort ?result) \<in> set (sort ?result)"
    using ne by (rule last_in_set)
  then obtain y where y: "last (sort ?result) = (ratio y word, y)" "y \<in> set ps"
    by auto
  have "(ratio x word, x) \<le> last (sort ?result)"
    using x by (intro sorted_le_last) simp_all
  with y best show ?thesis by simp
qed

lemma intor_never_suggests_extensionless:
  assumes "''/guide/intro.mdx'' \<in> set (all_files v)"
  shows "find_closest_match v ''/guide/intor.mdx'' \<noteq> Some ''/guide/intro''"
proof
  assume s: "find_closest_match v ''/guide/intor.mdx'' = Some ''/guide/intro''"
  have lw: "lower ''/guide/intor.mdx'' = ''/guide/intor.mdx''"
    and lx: "lower ''/guide/intro.mdx'' = ''/guide/intro.mdx''"
    and ly: "lower ''/guide/intro'' = ''/guide/intro''"
    by code_simp+
  have close: "close_enough (6 / 10) ''/guide/intor.mdx'' ''/guide/intro.mdx''"
    by code_simp
  have rx: "ratio ''/guide/intro.mdx'' ''/guide/intor.mdx'' = 15 / 16"
    and ry: "ratio ''/guide/intro'' ''/guide/intor.mdx'' = 11 / 14"
    by code_simp+
  from s obtain best rest where
    g: "get_close_matches ''/guide/intor.mdx'' (map lower (all_files v)) 3 (6 / 10) = best # rest"
    and f: "find (\<lambda>file_path. lower file_path = best) (all_files v) = Some ''/guide/intro''"
    by (auto simp: find_closest_match_def Let_def lw split: list.splits)
  from f have "lower ''/guide/intro'' = best"
    by (auto simp: find_Some_iff)
  then have "best = ''/guide/intro''"
    by (simp add: ly)
  moreover have "''/guide/intro.mdx'' \<in> set (map lower (all_files v))"
    using assms lx by force
  ultimately have "(ratio ''/guide/intro.mdx'' ''/guide/intor.mdx'', ''/guide/intro.mdx'')
        \<le> (ratio ''/guide/intro'' ''/guide/intor.mdx'', ''/guide/intro'')"
    using get_close_matches_best [OF g _ close] by simp
  then show False
    by (simp add: rx ry less_eq_prod_def)
qed

subsection \<open>Two runs over one tree\<close>

text \<open>
  Claim C8, as the code has it. Two runs over one unchanged tree may meet the index in
  different iteration orders. When no two indexed paths differ in letter case only, the
  two reports are equal, the order of every list included.
\<close>

theorem report_independent_of_iteration_order:
  assumes "set_iteration order1 (build_file_index tree)"
    and "set_iteration order2 (build_file_index tree)"
    and "inj_on lower (build_file_index tree)"
  shows "run order1 tree = run order2 tree"
  using assms by (rule run_order)

lemma rev_scenario_order_iteration:
  "set_iteration (rev scenario_order) (build_file_index scenario_tree)"
  using scenario_order_iteration by (simp add: set_iteration_def)

theorem report_independent_of_iteration_order_witness:
  "set_iteration scenario_order (build_file_index scenario_tree)
   \<and> set_iteration (rev scenario_order) (build_file_index scenario_tree)
   \<and> inj_on lower (build_file_index scenario_tree)
   \<and> run scenario_order scenario_tree = run (rev scenario_order) scenario_tree"
  using report_independent_of_iteration_order
      [OF scenario_order_iteration rev_scenario_order_iteration scenario_lower_inj]
    scenario_order_iteration rev_scenario_order_iteration scenario_lower_inj
  by simp

lemma case_insertions:
  "concat (map (\<lambda>e. file_variants (rel_path e)) (indexed_files case_tree)) = case_order1"
  by code_simp

lemma case_order1_iteration: "set_iteration case_order1 (build_file_index case_tree)"
  unfolding set_iteration_def build_file_index_def case_insertions
  by (simp add: case_order1_def)

lemma case_order2_iteration: "set_iteration case_order2 (build_file_index case_tree)"
  unfolding set_iteration_def build_file_index_def case_insertions
  by (auto simp add: case_order1_def case_order2_def)

lemma case_suggestions:
  "suggestions (run case_order1 case_tree) = [Some ''Intro.mdx'']"
  "suggestions (run case_order2 case_tree) = [Some ''intro.mdx'']"
  by code_simp+

text \<open>
  With \<^verbatim>\<open>Intro.mdx\<close> and \<^verbatim>\<open>intro.mdx\<close> in one tree, two iteration orders of the same index
  give two different reports: the suggestion is the first of the two paths the iteration
  meets.
\<close>

theorem report_depends_on_iteration_order:
  "set_iteration case_order1 (build_file_index case_tree)
   \<and> set_iteration case_order2 (build_file_index case_tree)
   \<and> run case_order1 case_tree \<noteq> run case_order2 case_tree"
proof -
  have "suggestions (run case_order1 case_tree) \<noteq> suggestions (run case_order2 case_tree)"
    by (simp add: case_suggestions)
  then have "run case_order1 case_tree \<noteq> run case_order2 case_tree"
    by auto
  with case_order1_iteration case_order2_iteration show ?thesis
    by simp
qed

subsection \<open>Witness of the confidence rule\<close>

lemma far_link_broken: "is_broken (LinkValidator scenario_order scenario_tree) far_link"
  by code_simp

lemma far_link_ratios:
  "\<forall>f\<in>set (all_files (LinkValidator scenario_order scenario_tree)).
     ratio (lower f) (lower (normalize_internal_path (url far_link))) < 6 / 10"
  by code_simp

theorem no_close_match_low_confidence_witness:
  "is_broken (LinkValidator scenario_order scenario_tree) far_link
   \<and> map confidence (broken_links (process_link far_link (LinkValidator scenario_order scenario_tree)))
       = [''low'']
   \<and> set_iteration scenario_order (build_file_index scenario_tree)
   \<and> map confidence (broken_links (process_all_files (LinkValidator scenario_order scenario_tree)))
       = [''high'']"
proof -
  have run: "broken_links (process_all_files (LinkValidator scenario_order scenario_tree))
               = broken_links_r (run scenario_order scenario_tree)"
    by (simp add: run_def generate_report_def)
  show ?thesis
    using no_close_match_low_confidence
        [of "LinkValidator scenario_order scenario_tree" far_link scenario_order scenario_tree]
      far_link_broken far_link_ratios scenario_order_iteration
    by (simp add: run scenario_report LinkValidator_fields)
qed

end
